theory Spec2Isabelle
  imports Main
begin

section \<open>Storage and objects\<close>

text \<open>
  \<^verbatim>\<open>typedef int buffer_item;\<close> (buffer.h). The type \<^verbatim>\<open>int\<close> is modelled by the
  mathematical integers: under the representation invariant \<open>holds\<close> below every index
  and counter stays within \<open>-1 .. max_size\<close>, so no 32-bit arithmetic of the class can
  overflow, and items are only stored and loaded, never computed with.
\<close>

type_synonym buffer_item = int
type_synonym addr = nat

text \<open>
  Ways in which a call does not return normally.
  \<^item> \<open>Waits_empty_cond\<close>: \<^verbatim>\<open>insert_item\<close> stays in
    \<^verbatim>\<open>while (is_full()) empty_cond.wait(lock)\<close>;
  \<^item> \<open>Waits_full_cond\<close>: \<^verbatim>\<open>remove_item\<close> stays in
    \<^verbatim>\<open>while (is_empty()) full_cond.wait(lock)\<close>;
  \<^item> \<open>Bad_array_new_length\<close>: \<^verbatim>\<open>new buffer_item[n]\<close> with negative \<open>n\<close> throws
    \<^verbatim>\<open>std::bad_array_new_length\<close>;
  \<^item> \<open>Undefined_behaviour\<close>: an access outside an array, to a freed array, to a
    cell that was never written, through a pointer to no object, or \<^verbatim>\<open>% 0\<close>.
\<close>

datatype fault = Waits_empty_cond | Waits_full_cond | Bad_array_new_length | Undefined_behaviour

text \<open>
  The fields of \<^verbatim>\<open>class Buffer\<close>. \<open>items\<close> is the pointer: the address of an array in
  the store. The mutex and the two condition variables carry no data; waiting on them
  is the fault outcome above, and \<^verbatim>\<open>notify_one\<close> changes no field.
\<close>

record Buffer =
  items :: addr
  max_size :: int
  current_count :: int
  front_idx :: int
  rear_idx :: int

text \<open>
  The store. \<open>blocks\<close> lists the arrays obtained from \<^verbatim>\<open>new[]\<close> by address; an array is
  a list of cells, a cell is \<open>None\<close> until it is first written (\<^verbatim>\<open>new int[n]\<close> does not
  initialise), and a whole entry is \<open>None\<close> once \<^verbatim>\<open>delete[]\<close> has released it. \<open>new[]\<close>
  appends, so it never returns the address of an array that exists, and it never fails
  for lack of memory. \<open>objects\<close> maps the address of a \<^verbatim>\<open>Buffer\<close> object (\<^verbatim>\<open>this\<close>) to its
  fields.
\<close>

record state =
  blocks :: "buffer_item option list option list"
  objects :: "addr \<Rightarrow> Buffer option"

definition empty_state :: state where
  "empty_state = \<lparr>blocks = [], objects = (\<lambda>_. None)\<rparr>"

definition block_at :: "state \<Rightarrow> addr \<Rightarrow> buffer_item option list option" where
  "block_at s a = (if a < length (blocks s) then blocks s ! a else None)"

definition new_array :: "int \<Rightarrow> state \<Rightarrow> fault + (addr \<times> state)" where
  "new_array n s =
     (if n < 0 then Inl Bad_array_new_length
      else Inr (length (blocks s),
                s\<lparr>blocks := blocks s @ [Some (replicate (nat n) None)]\<rparr>))"

definition delete_array :: "addr \<Rightarrow> state \<Rightarrow> fault + state" where
  "delete_array a s =
     (case block_at s a of
        None \<Rightarrow> Inl Undefined_behaviour
      | Some cells \<Rightarrow> Inr (s\<lparr>blocks := (blocks s)[a := None]\<rparr>))"

definition load :: "addr \<Rightarrow> int \<Rightarrow> state \<Rightarrow> fault + buffer_item" where
  "load a i s =
     (case block_at s a of
        None \<Rightarrow> Inl Undefined_behaviour
      | Some cells \<Rightarrow>
          if 0 \<le> i \<and> i < int (length cells)
          then (case cells ! nat i of None \<Rightarrow> Inl Undefined_behaviour | Some v \<Rightarrow> Inr v)
          else Inl Undefined_behaviour)"

definition store :: "addr \<Rightarrow> int \<Rightarrow> buffer_item \<Rightarrow> state \<Rightarrow> fault + state" where
  "store a i v s =
     (case block_at s a of
        None \<Rightarrow> Inl Undefined_behaviour
      | Some cells \<Rightarrow>
          if 0 \<le> i \<and> i < int (length cells)
          then Inr (s\<lparr>blocks := (blocks s)[a := Some (cells[nat i := Some v])]\<rparr>)
          else Inl Undefined_behaviour)"

text \<open>
  \<^verbatim>\<open>a % b\<close> in C++: the quotient is rounded towards zero, so the result has the sign of
  \<open>a\<close> and the magnitude of the remainder of the magnitudes.
\<close>

definition c_rem :: "int \<Rightarrow> int \<Rightarrow> int" where
  "c_rem a b = sgn a * (\<bar>a\<bar> mod \<bar>b\<bar>)"

section \<open>The class Buffer\<close>

text \<open>
  \<^verbatim>\<open>Buffer::Buffer(int size)\<close>, constructing the object at address \<open>this\<close>; the
  parameter is \<open>sz\<close> here, \<open>size\<close> being a constant of HOL.
\<close>

definition Buffer_ctor :: "addr \<Rightarrow> int \<Rightarrow> state \<Rightarrow> fault + state" where
  "Buffer_ctor this sz s =
     (case new_array sz s of
        Inl f \<Rightarrow> Inl f
      | Inr (a, s') \<Rightarrow>
          Inr (s'\<lparr>objects := (objects s')(this \<mapsto>
                 \<lparr>items = a, max_size = sz, current_count = 0,
                  front_idx = 0, rear_idx = - 1\<rparr>)\<rparr>))"

definition get_size :: "Buffer \<Rightarrow> int" where
  "get_size b = max_size b"

definition get_count :: "Buffer \<Rightarrow> int" where
  "get_count b = current_count b"

definition is_empty :: "Buffer \<Rightarrow> bool" where
  "is_empty b = (current_count b = 0)"

definition is_full :: "Buffer \<Rightarrow> bool" where
  "is_full b = (current_count b = max_size b)"

text \<open>
  \<^verbatim>\<open>bool Buffer::insert_item(buffer_item item)\<close>. The body runs under the mutex, so it is
  one atomic step; a call on a full buffer waits.
\<close>

definition insert_item :: "addr \<Rightarrow> buffer_item \<Rightarrow> state \<Rightarrow> fault + (bool \<times> state)" where
  "insert_item this item s =
     (case objects s this of
        None \<Rightarrow> Inl Undefined_behaviour
      | Some b \<Rightarrow>
          if is_full b then Inl Waits_empty_cond
          else if max_size b = 0 then Inl Undefined_behaviour
          else
            let r = c_rem (rear_idx b + 1) (max_size b) in
            (case store (items b) r item s of
               Inl f \<Rightarrow> Inl f
             | Inr s' \<Rightarrow>
                 Inr (True,
                      s'\<lparr>objects := (objects s')(this \<mapsto>
                         b\<lparr>rear_idx := r, current_count := current_count b + 1\<rparr>)\<rparr>)))"

text \<open>
  \<^verbatim>\<open>bool Buffer::remove_item(buffer_item* item)\<close>. The value written to \<^verbatim>\<open>*item\<close> is
  returned beside the \<^verbatim>\<open>bool\<close>.
\<close>

definition remove_item :: "addr \<Rightarrow> state \<Rightarrow> fault + ((bool \<times> buffer_item) \<times> state)" where
  "remove_item this s =
     (case objects s this of
        None \<Rightarrow> Inl Undefined_behaviour
      | Some b \<Rightarrow>
          if is_empty b then Inl Waits_full_cond
          else
            (case load (items b) (front_idx b) s of
               Inl f \<Rightarrow> Inl f
             | Inr v \<Rightarrow>
                 if max_size b = 0 then Inl Undefined_behaviour
                 else
                   Inr ((True, v),
                        s\<lparr>objects := (objects s)(this \<mapsto>
                           b\<lparr>front_idx := c_rem (front_idx b + 1) (max_size b),
                             current_count := current_count b - 1\<rparr>)\<rparr>)))"

text \<open>
  The loop shared by the copy constructor and the assignment operator,
  \<^verbatim>\<open>for (int i = 0, index = front_idx; i < current_count; i++) {
      items[i] = other.items[index]; index = (index + 1) % max_size; }\<close>
  where \<open>t\<close> holds the fields of \<^verbatim>\<open>*this\<close> (already assigned from \<^verbatim>\<open>other\<close>), \<open>dst\<close> is the
  new array and \<open>src\<close> is \<^verbatim>\<open>other.items\<close>.
\<close>

function copy_loop :: "addr \<Rightarrow> Buffer \<Rightarrow> addr \<Rightarrow> int \<Rightarrow> int \<Rightarrow> state \<Rightarrow> fault + state" where
  "copy_loop dst t src i index s =
     (if i < current_count t then
        (case load src index s of
           Inl f \<Rightarrow> Inl f
         | Inr v \<Rightarrow>
             (case store dst i v s of
                Inl f \<Rightarrow> Inl f
              | Inr s' \<Rightarrow>
                  if max_size t = 0 then Inl Undefined_behaviour
                  else copy_loop dst t src (i + 1) (c_rem (index + 1) (max_size t)) s'))
      else Inr s)"
  by pat_completeness auto
termination
  by (relation "measure (\<lambda>(dst, t, src, i, index, s). nat (current_count t - i))") auto

declare copy_loop.simps [simp del]

text \<open>
  \<^verbatim>\<open>Buffer::Buffer(const Buffer& other)\<close>, constructing the object at \<open>this\<close>. The four
  fields are taken from \<^verbatim>\<open>other\<close> as they are, the array is new, and the loop writes the
  items of \<^verbatim>\<open>other\<close> to the cells \<open>0, 1, ...\<close> of the new array. An object constructed
  from itself reads its own indeterminate members.
\<close>

definition Buffer_copy :: "addr \<Rightarrow> addr \<Rightarrow> state \<Rightarrow> fault + state" where
  "Buffer_copy this other s =
     (if this = other then Inl Undefined_behaviour
      else
        (case objects s other of
           None \<Rightarrow> Inl Undefined_behaviour
         | Some ob \<Rightarrow>
             (case new_array (max_size ob) s of
                Inl f \<Rightarrow> Inl f
              | Inr (a, s1) \<Rightarrow>
                  let t = \<lparr>items = a, max_size = max_size ob,
                           current_count = current_count ob,
                           front_idx = front_idx ob, rear_idx = rear_idx ob\<rparr> in
                  (case copy_loop a t (items ob) 0 (front_idx t) s1 of
                     Inl f \<Rightarrow> Inl f
                   | Inr s2 \<Rightarrow> Inr (s2\<lparr>objects := (objects s2)(this \<mapsto> t)\<rparr>)))))"

text \<open>
  \<^verbatim>\<open>Buffer& Buffer::operator=(const Buffer& other)\<close>; the reference returned is the
  address \<open>this\<close>.
\<close>

definition Buffer_assign :: "addr \<Rightarrow> addr \<Rightarrow> state \<Rightarrow> fault + (addr \<times> state)" where
  "Buffer_assign this other s =
     (if this = other then Inr (this, s)
      else
        (case objects s this of
           None \<Rightarrow> Inl Undefined_behaviour
         | Some tb \<Rightarrow>
             (case delete_array (items tb) s of
                Inl f \<Rightarrow> Inl f
              | Inr s0 \<Rightarrow>
                  (case objects s0 other of
                     None \<Rightarrow> Inl Undefined_behaviour
                   | Some ob \<Rightarrow>
                       (case new_array (max_size ob) s0 of
                          Inl f \<Rightarrow> Inl f
                        | Inr (a, s1) \<Rightarrow>
                            let t = \<lparr>items = a, max_size = max_size ob,
                                     current_count = current_count ob,
                                     front_idx = front_idx ob, rear_idx = rear_idx ob\<rparr> in
                            (case copy_loop a t (items ob) 0 (front_idx t) s1 of
                               Inl f \<Rightarrow> Inl f
                             | Inr s2 \<Rightarrow>
                                 Inr (this, s2\<lparr>objects := (objects s2)(this \<mapsto> t)\<rparr>)))))))"

subsection \<open>Printing\<close>

text \<open>\<^verbatim>\<open>cout << n\<close> for an \<^verbatim>\<open>int\<close>: the decimal digits, after a minus sign if negative.\<close>

fun digits :: "nat \<Rightarrow> string" where
  "digits n =
     (if n < 10 then [''0123456789'' ! n]
      else digits (n div 10) @ [''0123456789'' ! (n mod 10)])"

definition show_int :: "int \<Rightarrow> string" where
  "show_int n = (if n < 0 then CHR ''-'' # digits (nat (- n)) else digits (nat n))"

text \<open>
  The loop of \<^verbatim>\<open>print_buffer\<close>; \<open>out\<close> is what the call has written to \<^verbatim>\<open>cout\<close> so far.
\<close>

function print_loop :: "Buffer \<Rightarrow> int \<Rightarrow> int \<Rightarrow> string \<Rightarrow> state \<Rightarrow> fault + string" where
  "print_loop b i index out s =
     (if i < current_count b then
        (case load (items b) index s of
           Inl f \<Rightarrow> Inl f
         | Inr v \<Rightarrow>
             let out1 = out @ show_int v;
                 out2 = (if i < current_count b - 1 then out1 @ '', '' else out1)
             in if max_size b = 0 then Inl Undefined_behaviour
                else print_loop b (i + 1) (c_rem (index + 1) (max_size b)) out2 s)
      else Inr out)"
  by pat_completeness auto
termination
  by (relation "measure (\<lambda>(b, i, index, out, s). nat (current_count b - i))") auto

declare print_loop.simps [simp del]

text \<open>\<^verbatim>\<open>void Buffer::print_buffer()\<close>: the text written to \<^verbatim>\<open>cout\<close>.\<close>

definition print_buffer :: "addr \<Rightarrow> state \<Rightarrow> fault + string" where
  "print_buffer this s =
     (case objects s this of
        None \<Rightarrow> Inl Undefined_behaviour
      | Some b \<Rightarrow>
          (case (if is_empty b then Inr (''Buffer: ['' @ ''-- Buffer is empty --'')
                 else print_loop b 0 (front_idx b) ''Buffer: ['' s) of
             Inl f \<Rightarrow> Inl f
           | Inr out \<Rightarrow> Inr (out @ [CHR '']'', CHR 0x0A])))"

section \<open>Sequences of calls\<close>

text \<open>
  Every body runs under the mutex of the buffer, so the calls of the producers and
  consumers on one buffer take effect one after the other. \<open>run\<close> performs a sequence of
  calls on the buffer at \<open>this\<close>; after each \<^verbatim>\<open>remove_item\<close> it also calls \<^verbatim>\<open>is_full()\<close>, and
  it returns, for every removal in order, the item removed and that answer.
\<close>

datatype op = Insert buffer_item | Remove

fun run :: "addr \<Rightarrow> op list \<Rightarrow> state \<Rightarrow> fault + ((buffer_item \<times> bool) list \<times> state)" where
  "run this [] s = Inr ([], s)"
| "run this (Insert x # ops) s =
     (case insert_item this x s of
        Inl f \<Rightarrow> Inl f
      | Inr (ok, s') \<Rightarrow> run this ops s')"
| "run this (Remove # ops) s =
     (case remove_item this s of
        Inl f \<Rightarrow> Inl f
      | Inr ((ok, v), s') \<Rightarrow>
          (case objects s' this of
             None \<Rightarrow> Inl Undefined_behaviour
           | Some b \<Rightarrow>
               (case run this ops s' of
                  Inl f \<Rightarrow> Inl f
                | Inr (log, s'') \<Rightarrow> Inr ((v, is_full b) # log, s''))))"

text \<open>The items a sequence of calls inserts, in order.\<close>

fun inserted :: "op list \<Rightarrow> buffer_item list" where
  "inserted [] = []"
| "inserted (Insert x # ops) = x # inserted ops"
| "inserted (Remove # ops) = inserted ops"

text \<open>
  The blocking contract for a sequence of calls on a buffer of capacity \<open>C\<close> that holds
  \<open>n\<close> items: no insertion when \<open>n = C\<close>, no removal when \<open>n = 0\<close>.
\<close>

fun respects_contract :: "int \<Rightarrow> int \<Rightarrow> op list \<Rightarrow> bool" where
  "respects_contract C n [] = True"
| "respects_contract C n (Insert x # ops) = (n < C \<and> respects_contract C (n + 1) ops)"
| "respects_contract C n (Remove # ops) = (0 < n \<and> respects_contract C (n - 1) ops)"

text \<open>A list of strings separated by a comma and a space.\<close>

fun comma_separated :: "string list \<Rightarrow> string" where
  "comma_separated [] = []"
| "comma_separated [x] = x"
| "comma_separated (x # y # ys) = x @ '', '' @ comma_separated (y # ys)"

section \<open>The program around the buffer (main.cpp)\<close>

text \<open>
  \<^verbatim>\<open>Buffer buffer(5);\<close> is a global: it is constructed before \<^verbatim>\<open>main\<close> starts.
\<close>

definition buffer_addr :: addr where
  "buffer_addr = 0"

definition static_init :: "fault + state" where
  "static_init = Buffer_ctor buffer_addr 5 empty_state"

text \<open>
  What \<^verbatim>\<open>main\<close> does, as the sequence of its calls. The third argument of \<^verbatim>\<open>sem_init\<close>
  is an \<^verbatim>\<open>unsigned int\<close>. A thread exists from its \<^verbatim>\<open>pthread_create\<close> on. An array of
  negative length (\<^verbatim>\<open>pthread_t producers[num_producers]\<close>) is undefined.
\<close>

datatype sem = Empty_slots | Full_slots

datatype role = Producer int | Consumer

datatype event =
    Print_usage
  | Sem_init sem nat
  | Mutex_init
  | Thread_create role
  | Sleep int
  | Print_shutdown
  | Sem_destroy sem
  | Mutex_destroy
  | Undefined
  | Return int

function create_producers :: "int \<Rightarrow> int \<Rightarrow> event list" where
  "create_producers i num_producers =
     (if i < num_producers
      then Thread_create (Producer (i + 1)) # create_producers (i + 1) num_producers
      else [])"
  by pat_completeness auto
termination
  by (relation "measure (\<lambda>(i, n). nat (n - i))") auto

declare create_producers.simps [simp del]

function create_consumers :: "int \<Rightarrow> int \<Rightarrow> event list" where
  "create_consumers j num_consumers =
     (if j < num_consumers
      then Thread_create Consumer # create_consumers (j + 1) num_consumers
      else [])"
  by pat_completeness auto
termination
  by (relation "measure (\<lambda>(j, n). nat (n - j))") auto

declare create_consumers.simps [simp del]

definition to_unsigned :: "int \<Rightarrow> nat" where
  "to_unsigned n = nat (n mod 2 ^ 32)"

text \<open>
  \<^verbatim>\<open>int main(int argc, char* argv[])\<close>, given \<^verbatim>\<open>argc\<close> and the three values that \<^verbatim>\<open>atoi\<close>
  returns, in the store \<open>s\<close> that holds the global buffer.
\<close>

definition main :: "int \<Rightarrow> int \<Rightarrow> int \<Rightarrow> int \<Rightarrow> state \<Rightarrow> event list" where
  "main argc sleep_time num_producers num_consumers s =
     (if argc \<noteq> 4 then [Print_usage, Return 1]
      else
        (case objects s buffer_addr of
           None \<Rightarrow> [Undefined]
         | Some b \<Rightarrow>
             [Sem_init Empty_slots (to_unsigned (get_size b)),
              Sem_init Full_slots 0,
              Mutex_init] @
             (if num_producers < 0 \<or> num_consumers < 0 then [Undefined]
              else
                create_producers 0 num_producers @
                create_consumers 0 num_consumers @
                [Sleep sleep_time, Print_shutdown,
                 Sem_destroy Empty_slots, Sem_destroy Full_slots, Mutex_destroy,
                 Return 0])))"

text \<open>
  The value a semaphore has after a sequence of calls of \<^verbatim>\<open>main\<close>, before any thread
  has used it: \<open>None\<close> when it is not initialised, or destroyed.
\<close>

fun sem_step :: "sem \<Rightarrow> nat option \<Rightarrow> event \<Rightarrow> nat option" where
  "sem_step x v (Sem_init y n) = (if x = y then Some n else v)"
| "sem_step x v (Sem_destroy y) = (if x = y then None else v)"
| "sem_step x v e = v"

definition permits :: "event list \<Rightarrow> sem \<Rightarrow> nat option" where
  "permits es x = foldl (sem_step x) None es"

section \<open>Representation invariant\<close>

text \<open>
  \<open>holds s this q\<close>: the object at \<open>this\<close> is a buffer of positive capacity whose live
  items, oldest first, are \<open>q\<close>: the count is the length of \<open>q\<close> and at most the capacity,
  the array has \<open>max_size\<close> cells, the indices are in range, the rear index is where
  the newest item is, and item \<open>i\<close> of \<open>q\<close> is in cell \<open>(front_idx + i) mod max_size\<close>.
\<close>

definition holds :: "state \<Rightarrow> addr \<Rightarrow> buffer_item list \<Rightarrow> bool" where
  "holds s this q =
     (case objects s this of
        None \<Rightarrow> False
      | Some b \<Rightarrow>
          (case block_at s (items b) of
             None \<Rightarrow> False
           | Some cells \<Rightarrow>
               0 < max_size b \<and> int (length cells) = max_size b \<and>
               current_count b = int (length q) \<and> current_count b \<le> max_size b \<and>
               0 \<le> front_idx b \<and> front_idx b < max_size b \<and>
               - 1 \<le> rear_idx b \<and> rear_idx b < max_size b \<and>
               (if q = [] then (rear_idx b + 1) mod max_size b = front_idx b
                else rear_idx b = (front_idx b + current_count b - 1) mod max_size b) \<and>
               map (\<lambda>i. cells ! nat ((front_idx b + int i) mod max_size b)) [0..<length q]
                 = map Some q))"

section \<open>Arithmetic of the indices\<close>

lemma c_rem_mod: "0 \<le> a \<Longrightarrow> 0 < b \<Longrightarrow> c_rem a b = a mod b"
  by (cases "a = 0") (simp_all add: c_rem_def)

lemma mod_shift_neq:
  fixes f i j c :: int
  assumes "0 \<le> i" "i < j" "j - i < c"
  shows "(f + i) mod c \<noteq> (f + j) mod c"
proof
  assume "(f + i) mod c = (f + j) mod c"
  then have "c dvd (f + j) - (f + i)" by (metis mod_eq_dvd_iff)
  then have d: "c dvd j - i" by simp
  from assms have "0 < j - i" by simp
  with d have "c \<le> j - i" by (rule zdvd_imp_le)
  with assms show False by simp
qed

section \<open>The representation invariant, unfolded\<close>

lemma cells_map_iff:
  "(map f [0..<length q] = map Some q) \<longleftrightarrow> (\<forall>i<length q. f i = Some (q ! i))"
proof
  assume eq: "map f [0..<length q] = map Some q"
  show "\<forall>i<length q. f i = Some (q ! i)"
  proof (intro allI impI)
    fix i assume i: "i < length q"
    then have "map f [0..<length q] ! i = f i" by simp
    moreover from i have "map Some q ! i = Some (q ! i)" by simp
    ultimately show "f i = Some (q ! i)" using eq by simp
  qed
next
  assume "\<forall>i<length q. f i = Some (q ! i)"
  then show "map f [0..<length q] = map Some q"
    by (intro nth_equalityI) simp_all
qed

lemma holds_iff:
  "holds s this q \<longleftrightarrow>
     (\<exists>b cells. objects s this = Some b \<and> block_at s (items b) = Some cells \<and>
        0 < max_size b \<and> int (length cells) = max_size b \<and>
        current_count b = int (length q) \<and> current_count b \<le> max_size b \<and>
        0 \<le> front_idx b \<and> front_idx b < max_size b \<and>
        - 1 \<le> rear_idx b \<and> rear_idx b < max_size b \<and>
        (if q = [] then (rear_idx b + 1) mod max_size b = front_idx b
         else rear_idx b = (front_idx b + current_count b - 1) mod max_size b) \<and>
        (\<forall>i<length q. cells ! nat ((front_idx b + int i) mod max_size b) = Some (q ! i)))"
  unfolding holds_def cells_map_iff
  by (cases "objects s this"; cases "block_at s (items (the (objects s this)))"; simp)

section \<open>One call\<close>

lemma block_at_update:
  "block_at (s\<lparr>blocks := (blocks s)[a := v]\<rparr>) a' =
     (if a' = a \<and> a < length (blocks s) then v else block_at s a')"
  by (simp add: block_at_def)

lemma block_at_objects_update [simp]:
  "block_at (s\<lparr>objects := f\<rparr>) a = block_at s a"
  by (simp add: block_at_def)

lemma block_at_Some_less: "block_at s a = Some cells \<Longrightarrow> a < length (blocks s)"
  by (simp add: block_at_def split: if_splits)

lemma insert_item_step:
  assumes h: "holds s this q" and ob: "objects s this = Some b" and nf: "\<not> is_full b"
  shows "\<exists>cells. block_at s (items b) = Some cells \<and>
           insert_item this x s =
             Inr (True,
                  s\<lparr>blocks := (blocks s)[items b :=
                         Some (cells[nat ((rear_idx b + 1) mod max_size b) := Some x])],
                    objects := (objects s)(this \<mapsto>
                         b\<lparr>rear_idx := (rear_idx b + 1) mod max_size b,
                           current_count := current_count b + 1\<rparr>)\<rparr>) \<and>
           holds (s\<lparr>blocks := (blocks s)[items b :=
                         Some (cells[nat ((rear_idx b + 1) mod max_size b) := Some x])],
                    objects := (objects s)(this \<mapsto>
                         b\<lparr>rear_idx := (rear_idx b + 1) mod max_size b,
                           current_count := current_count b + 1\<rparr>)\<rparr>) this (q @ [x])"
proof -
  from h ob obtain cells where
    bl: "block_at s (items b) = Some cells" and
    C: "0 < max_size b" and len: "int (length cells) = max_size b" and
    cnt: "current_count b = int (length q)" and le: "current_count b \<le> max_size b" and
    f0: "0 \<le> front_idx b" and f1: "front_idx b < max_size b" and
    r0: "- 1 \<le> rear_idx b" and r1: "rear_idx b < max_size b" and
    rr: "if q = [] then (rear_idx b + 1) mod max_size b = front_idx b
         else rear_idx b = (front_idx b + current_count b - 1) mod max_size b" and
    cs: "\<forall>i<length q. cells ! nat ((front_idx b + int i) mod max_size b) = Some (q ! i)"
    by (auto simp: holds_iff)
  define r where "r = (rear_idx b + 1) mod max_size b"
  from nf le have lt: "current_count b < max_size b" by (simp add: is_full_def)
  from r0 C have cr: "c_rem (rear_idx b + 1) (max_size b) = r"
    by (simp add: c_rem_mod r_def)
  from C have rlo: "0 \<le> r" and rhi: "r < max_size b" by (simp_all add: r_def)
  have req: "r = (front_idx b + current_count b) mod max_size b"
  proof (cases "q = []")
    case True
    with rr cnt f0 f1 show ?thesis by (simp add: r_def)
  next
    case False
    with rr have "rear_idx b = (front_idx b + current_count b - 1) mod max_size b" by simp
    then have "r = ((front_idx b + current_count b - 1) mod max_size b + 1) mod max_size b"
      by (simp add: r_def)
    also have "\<dots> = (front_idx b + current_count b - 1 + 1) mod max_size b"
      by (rule mod_add_left_eq)
    finally show ?thesis by simp
  qed
  let ?b' = "b\<lparr>rear_idx := r, current_count := current_count b + 1\<rparr>"
  let ?cells' = "cells[nat r := Some x]"
  let ?s' = "s\<lparr>blocks := (blocks s)[items b := Some ?cells'],
               objects := (objects s)(this \<mapsto> ?b')\<rparr>"
  from bl have alen: "items b < length (blocks s)" by (rule block_at_Some_less)
  have st: "store (items b) r x s = Inr (s\<lparr>blocks := (blocks s)[items b := Some ?cells']\<rparr>)"
    using bl rlo rhi len by (simp add: store_def)
  have ins: "insert_item this x s = Inr (True, ?s')"
    using ob nf C cr st by (simp add: insert_item_def)
  have bl': "block_at ?s' (items ?b') = Some ?cells'"
    using alen by (simp add: block_at_def)
  have cells': "\<forall>i<length (q @ [x]).
      ?cells' ! nat ((front_idx ?b' + int i) mod max_size ?b') = Some ((q @ [x]) ! i)"
  proof (intro allI impI)
    fix i assume i: "i < length (q @ [x])"
    show "?cells' ! nat ((front_idx ?b' + int i) mod max_size ?b') = Some ((q @ [x]) ! i)"
    proof (cases "i = length q")
      case True
      with req cnt have "(front_idx b + int i) mod max_size b = r" by simp
      moreover from rlo rhi len have "nat r < length cells" by simp
      ultimately show ?thesis using True by simp
    next
      case False
      with i have il: "i < length q" by simp
      have "(front_idx b + int i) mod max_size b \<noteq> (front_idx b + int (length q)) mod max_size b"
        using il lt cnt by (intro mod_shift_neq) simp_all
      with req cnt have ne: "(front_idx b + int i) mod max_size b \<noteq> r" by simp
      from C have "0 \<le> (front_idx b + int i) mod max_size b" by simp
      with ne rlo have "nat ((front_idx b + int i) mod max_size b) \<noteq> nat r" by simp
      then have "?cells' ! nat ((front_idx b + int i) mod max_size b)
                   = cells ! nat ((front_idx b + int i) mod max_size b)" by simp
      with cs il show ?thesis by (simp add: nth_append)
    qed
  qed
  have "holds ?s' this (q @ [x])"
    unfolding holds_iff
  proof (intro exI conjI)
    show "objects ?s' this = Some ?b'" by simp
    show "block_at ?s' (items ?b') = Some ?cells'" by (rule bl')
    show "\<forall>i<length (q @ [x]).
      ?cells' ! nat ((front_idx ?b' + int i) mod max_size ?b') = Some ((q @ [x]) ! i)"
      by (rule cells')
    show "- 1 \<le> rear_idx ?b'" using rlo by simp
    show "rear_idx ?b' < max_size ?b'" using rhi by simp
    show "if q @ [x] = [] then (rear_idx ?b' + 1) mod max_size ?b' = front_idx ?b'
          else rear_idx ?b' = (front_idx ?b' + current_count ?b' - 1) mod max_size ?b'"
      using req by simp
  qed (use C len cnt lt f0 f1 in simp_all)
  with bl ins show ?thesis unfolding r_def by blast
qed

lemma remove_item_step:
  assumes h: "holds s this q" and ob: "objects s this = Some b" and ne: "\<not> is_empty b"
  shows "q \<noteq> [] \<and> load (items b) (front_idx b) s = Inr (hd q) \<and>
         remove_item this s =
           Inr ((True, hd q),
                s\<lparr>objects := (objects s)(this \<mapsto>
                     b\<lparr>front_idx := (front_idx b + 1) mod max_size b,
                       current_count := current_count b - 1\<rparr>)\<rparr>) \<and>
         holds (s\<lparr>objects := (objects s)(this \<mapsto>
                     b\<lparr>front_idx := (front_idx b + 1) mod max_size b,
                       current_count := current_count b - 1\<rparr>)\<rparr>) this (tl q)"
proof -
  from h ob obtain cells where
    bl: "block_at s (items b) = Some cells" and
    C: "0 < max_size b" and len: "int (length cells) = max_size b" and
    cnt: "current_count b = int (length q)" and le: "current_count b \<le> max_size b" and
    f0: "0 \<le> front_idx b" and f1: "front_idx b < max_size b" and
    r0: "- 1 \<le> rear_idx b" and r1: "rear_idx b < max_size b" and
    rr: "if q = [] then (rear_idx b + 1) mod max_size b = front_idx b
         else rear_idx b = (front_idx b + current_count b - 1) mod max_size b" and
    cs: "\<forall>i<length q. cells ! nat ((front_idx b + int i) mod max_size b) = Some (q ! i)"
    by (auto simp: holds_iff)
  from ne cnt have qne: "q \<noteq> []" by (auto simp: is_empty_def)
  define f' where "f' = (front_idx b + 1) mod max_size b"
  let ?b' = "b\<lparr>front_idx := f', current_count := current_count b - 1\<rparr>"
  let ?s' = "s\<lparr>objects := (objects s)(this \<mapsto> ?b')\<rparr>"
  from f0 C have cr: "c_rem (front_idx b + 1) (max_size b) = f'"
    by (simp add: c_rem_mod f'_def)
  from C have flo: "0 \<le> f'" and fhi: "f' < max_size b" by (simp_all add: f'_def)
  from qne cs have "cells ! nat ((front_idx b + int 0) mod max_size b) = Some (q ! 0)"
    by (metis length_greater_0_conv)
  with f0 f1 qne have c0: "cells ! nat (front_idx b) = Some (hd q)"
    by (simp add: hd_conv_nth)
  have ld: "load (items b) (front_idx b) s = Inr (hd q)"
    using bl f0 f1 len c0 by (simp add: load_def)
  have rem: "remove_item this s = Inr ((True, hd q), ?s')"
    using ob ne ld C cr by (simp add: remove_item_def)
  have shift: "(f' + k) mod max_size b = (front_idx b + (k + 1)) mod max_size b" for k
  proof -
    have "(f' + k) mod max_size b = (front_idx b + 1 + k) mod max_size b"
      unfolding f'_def by (rule mod_add_left_eq)
    then show ?thesis by (simp add: add.commute add.left_commute)
  qed
  have "holds ?s' this (tl q)"
    unfolding holds_iff
  proof (intro exI conjI)
    show "objects ?s' this = Some ?b'" by simp
    show "block_at ?s' (items ?b') = Some cells" using bl by simp
    show "0 \<le> front_idx ?b'" using flo by simp
    show "front_idx ?b' < max_size ?b'" using fhi by simp
    show "current_count ?b' = int (length (tl q))" using cnt qne by (cases q) simp_all
    show "if tl q = [] then (rear_idx ?b' + 1) mod max_size ?b' = front_idx ?b'
          else rear_idx ?b' = (front_idx ?b' + current_count ?b' - 1) mod max_size ?b'"
    proof (cases "tl q = []")
      case True
      with qne have "length q = 1" by (cases q) simp_all
      with rr qne cnt f0 f1 have "rear_idx b = front_idx b" by simp
      with True show ?thesis by (simp add: f'_def)
    next
      case False
      have e: "front_idx b + current_count b - 1 = front_idx b + ((current_count b - 2) + 1)"
        by arith
      from rr qne have "rear_idx b = (front_idx b + current_count b - 1) mod max_size b"
        by simp
      then have "rear_idx b = (front_idx b + ((current_count b - 2) + 1)) mod max_size b"
        by (simp only: e)
      also have "\<dots> = (f' + (current_count b - 2)) mod max_size b"
        by (rule shift [symmetric])
      finally show ?thesis using False by (simp add: algebra_simps)
    qed
    show "\<forall>i<length (tl q).
            cells ! nat ((front_idx ?b' + int i) mod max_size ?b') = Some (tl q ! i)"
    proof (intro allI impI)
      fix i assume i: "i < length (tl q)"
      then have i1: "Suc i < length q" by simp
      have "(f' + int i) mod max_size b = (front_idx b + int (Suc i)) mod max_size b"
        using shift [of "int i"] by (simp add: add.commute)
      with cs i1 have "cells ! nat ((f' + int i) mod max_size b) = Some (q ! Suc i)"
        by metis
      with i show "cells ! nat ((front_idx ?b' + int i) mod max_size ?b') = Some (tl q ! i)"
        by (simp add: nth_tl)
    qed
  qed (use C len le r0 r1 in simp_all)
  with qne rem ld show ?thesis unfolding f'_def by blast
qed

section \<open>Sequences of calls respecting the blocking contract\<close>

lemma run_contract:
  assumes "holds s this q" and "objects s this = Some b"
    and "respects_contract (max_size b) (int (length q)) ops"
  shows "\<exists>log s' q' b'. run this ops s = Inr (log, s') \<and> holds s' this q' \<and>
           q @ inserted ops = map fst log @ q' \<and> (\<forall>e\<in>set log. \<not> snd e) \<and>
           objects s' this = Some b' \<and> max_size b' = max_size b"
  using assms
proof (induction ops arbitrary: s q b)
  case Nil
  then show ?case by simp
next
  case (Cons c ops)
  from Cons.prems(1,2) have cnt: "current_count b = int (length q)"
    by (auto simp: holds_iff)
  show ?case
  proof (cases c)
    case (Insert x)
    with Cons.prems(3) have lt: "int (length q) < max_size b"
      and rest: "respects_contract (max_size b) (int (length q) + 1) ops" by simp_all
    from lt cnt have nf: "\<not> is_full b" by (simp add: is_full_def)
    from insert_item_step [OF Cons.prems(1,2) nf, of x]
    obtain s1 where ins: "insert_item this x s = Inr (True, s1)"
      and h1: "holds s1 this (q @ [x])"
      and o1: "objects s1 this = Some (b\<lparr>rear_idx := (rear_idx b + 1) mod max_size b,
                           current_count := current_count b + 1\<rparr>)"
      by auto
    from rest have "respects_contract
        (max_size (b\<lparr>rear_idx := (rear_idx b + 1) mod max_size b,
                           current_count := current_count b + 1\<rparr>))
        (int (length (q @ [x]))) ops" by (simp add: add.commute)
    from Cons.IH [OF h1 o1 this] obtain log s' q' b' where
      "run this ops s1 = Inr (log, s')" "holds s' this q'"
      "(q @ [x]) @ inserted ops = map fst log @ q'" "\<forall>e\<in>set log. \<not> snd e"
      "objects s' this = Some b'" "max_size b' = max_size b"
      by auto
    with ins Insert show ?thesis by simp
  next
    case Remove
    with Cons.prems(3) have gt: "0 < int (length q)"
      and rest: "respects_contract (max_size b) (int (length q) - 1) ops" by simp_all
    from gt cnt have ne: "\<not> is_empty b" by (simp add: is_empty_def)
    let ?b1 = "b\<lparr>front_idx := (front_idx b + 1) mod max_size b,
                       current_count := current_count b - 1\<rparr>"
    from remove_item_step [OF Cons.prems(1,2) ne]
    obtain s1 where qne: "q \<noteq> []" and rem: "remove_item this s = Inr ((True, hd q), s1)"
      and h1: "holds s1 this (tl q)"
      and o1: "objects s1 this = Some ?b1"
      by auto
    from Cons.prems(1,2) have "current_count b \<le> max_size b" by (auto simp: holds_iff)
    then have nfull: "\<not> is_full ?b1" by (simp add: is_full_def)
    from qne have "int (length (tl q)) = int (length q) - 1" by (cases q) simp_all
    with rest have "respects_contract (max_size ?b1) (int (length (tl q))) ops" by simp
    from Cons.IH [OF h1 o1 this] obtain log s' q' b' where
      "run this ops s1 = Inr (log, s')" "holds s' this q'"
      "tl q @ inserted ops = map fst log @ q'" "\<forall>e\<in>set log. \<not> snd e"
      "objects s' this = Some b'" "max_size b' = max_size b"
      by auto
    moreover from qne have "q = hd q # tl q" by simp
    ultimately show ?thesis using rem Remove o1 nfull
      by (simp, metis append_Cons)
  qed
qed

lemma ctor_holds:
  assumes "0 < C"
  shows "\<exists>s0. Buffer_ctor this C s = Inr s0 \<and> holds s0 this [] \<and>
           objects s0 this = Some \<lparr>items = length (blocks s), max_size = C, current_count = 0,
                                    front_idx = 0, rear_idx = - 1\<rparr>"
  using assms by (simp add: Buffer_ctor_def new_array_def holds_def block_at_def)

lemma run_fresh:
  assumes "0 < C" and "respects_contract C 0 ops"
  shows "\<exists>s0 log s' q' b'. Buffer_ctor this C s = Inr s0 \<and> run this ops s0 = Inr (log, s') \<and>
           holds s' this q' \<and> inserted ops = map fst log @ q' \<and> (\<forall>e\<in>set log. \<not> snd e) \<and>
           objects s' this = Some b' \<and> max_size b' = C"
proof -
  from ctor_holds [OF assms(1), of this s] obtain s0 b0 where
    c: "Buffer_ctor this C s = Inr s0" and h: "holds s0 this []" and
    o: "objects s0 this = Some b0" and m: "max_size b0 = C"
    by auto
  from assms(2) m have "respects_contract (max_size b0) (int (length ([]::buffer_item list))) ops"
    by simp
  from run_contract [OF h o this] c m show ?thesis by auto
qed

section \<open>What a call leaves unchanged\<close>

lemma holds_cong:
  assumes "objects s' p = objects s p"
    and "\<And>b. objects s p = Some b \<Longrightarrow> block_at s' (items b) = block_at s (items b)"
  shows "holds s' p q = holds s p q"
  using assms by (cases "objects s p") (simp_all add: holds_def)

lemma insert_item_frame:
  assumes "insert_item this x s = Inr (ok, s')" and "objects s this = Some b"
  shows "(\<exists>b'. objects s' this = Some b' \<and> items b' = items b) \<and>
         (\<forall>p. p \<noteq> this \<longrightarrow> objects s' p = objects s p) \<and>
         (\<forall>a. a \<noteq> items b \<longrightarrow> block_at s' a = block_at s a)"
  using assms
  by (auto simp: insert_item_def store_def block_at_def Let_def
      split: if_splits option.splits sum.splits)

lemma remove_item_frame:
  assumes "remove_item this s = Inr (r, s')" and "objects s this = Some b"
  shows "(\<exists>b'. objects s' this = Some b' \<and> items b' = items b) \<and>
         (\<forall>p. p \<noteq> this \<longrightarrow> objects s' p = objects s p) \<and>
         blocks s' = blocks s"
  using assms
  by (auto simp: remove_item_def split: if_splits option.splits sum.splits)

lemma run_frame:
  assumes "run this ops s = Inr (log, s')" and "objects s this = Some b"
  shows "(\<exists>b'. objects s' this = Some b' \<and> items b' = items b) \<and>
         (\<forall>p. p \<noteq> this \<longrightarrow> objects s' p = objects s p) \<and>
         (\<forall>a. a \<noteq> items b \<longrightarrow> block_at s' a = block_at s a)"
  using assms
proof (induction ops arbitrary: s b log)
  case Nil
  then show ?case by simp
next
  case (Cons c ops)
  show ?case
  proof (cases c)
    case (Insert x)
    with Cons.prems(1) obtain ok s1 where
      i: "insert_item this x s = Inr (ok, s1)" and r: "run this ops s1 = Inr (log, s')"
      by (auto split: sum.splits)
    from insert_item_frame [OF i Cons.prems(2)] obtain b1 where
      o1: "objects s1 this = Some b1" and it: "items b1 = items b" and
      fo: "\<forall>p. p \<noteq> this \<longrightarrow> objects s1 p = objects s p" and
      fb: "\<forall>a. a \<noteq> items b \<longrightarrow> block_at s1 a = block_at s a"
      by blast
    from Cons.IH [OF r o1] it fo fb show ?thesis by auto
  next
    case Remove
    with Cons.prems(1) obtain res s1 log1 where
      i: "remove_item this s = Inr (res, s1)" and r: "run this ops s1 = Inr (log1, s')"
      by (auto split: sum.splits option.splits)
    from remove_item_frame [OF i Cons.prems(2)] obtain b1 where
      o1: "objects s1 this = Some b1" and it: "items b1 = items b" and
      fo: "\<forall>p. p \<noteq> this \<longrightarrow> objects s1 p = objects s p" and
      fb: "blocks s1 = blocks s"
      by blast
    from fb have "\<forall>a. block_at s1 a = block_at s a" by (simp add: block_at_def)
    with Cons.IH [OF r o1] it fo show ?thesis by auto
  qed
qed

section \<open>The copy constructor\<close>

lemma copy_loop_result:
  assumes "src \<noteq> dst" and "block_at s src = Some cells" and "block_at s dst = Some d"
    and "int (length d) = max_size t" and "0 < max_size t"
    and "int (length cells) = max_size t"
    and "current_count t = int (length q)" and "current_count t \<le> max_size t"
    and "\<forall>i<length q. cells ! nat ((f + int i) mod max_size t) = Some (q ! i)"
    and "k \<le> length q"
  shows "copy_loop dst t src (int k) ((f + int k) mod max_size t) s =
           Inr (s\<lparr>blocks := (blocks s)[dst :=
                  Some (take k d @ map Some (drop k q) @ drop (length q) d)]\<rparr>)"
  using assms
proof (induction "length q - k" arbitrary: k s d)
  case 0
  then have k: "k = length q" by simp
  from "0.prems"(3) have "dst < length (blocks s)" and "blocks s ! dst = Some d"
    by (simp_all add: block_at_def split: if_splits)
  then have "(blocks s)[dst := Some d] = blocks s" by (simp add: list_update_same_conv)
  with k "0.prems"(7) show ?case
    by (subst copy_loop.simps) simp
next
  case (Suc n)
  let ?C = "max_size t"
  let ?idx = "(f + int k) mod ?C"
  from Suc.hyps(2) have kl: "k < length q" by simp
  with Suc.prems(4,7,8) have kd: "k < length d" by simp
  from Suc.prems(5) have i0: "0 \<le> ?idx" and i1: "?idx < ?C" by simp_all
  from Suc.prems(9) kl have c: "cells ! nat ?idx = Some (q ! k)" by simp
  have ld: "load src ?idx s = Inr (q ! k)"
    using Suc.prems(2,6) i0 i1 c by (simp add: load_def)
  let ?d' = "d[k := Some (q ! k)]"
  let ?s1 = "s\<lparr>blocks := (blocks s)[dst := Some ?d']\<rparr>"
  have st: "store dst (int k) (q ! k) s = Inr ?s1"
    using Suc.prems(3) kd by (simp add: store_def)
  from Suc.prems(3) have dl: "dst < length (blocks s)" by (rule block_at_Some_less)
  have b1: "block_at ?s1 src = Some cells"
    using Suc.prems(1,2) by (simp add: block_at_update)
  have b2: "block_at ?s1 dst = Some ?d'"
    using dl by (simp add: block_at_update)
  have nx: "c_rem (?idx + 1) ?C = (f + int (Suc k)) mod ?C"
  proof -
    from i0 Suc.prems(5) have "c_rem (?idx + 1) ?C = (?idx + 1) mod ?C"
      by (simp add: c_rem_mod)
    also have "\<dots> = (f + int k + 1) mod ?C" by (rule mod_add_left_eq)
    finally show ?thesis by (simp add: ac_simps)
  qed
  from Suc.hyps(2) have n: "n = length q - Suc k" by simp
  have kl': "Suc k \<le> length q" using kl by simp
  have len': "int (length ?d') = ?C" using Suc.prems(4) by simp
  have IH: "copy_loop dst t src (int (Suc k)) ((f + int (Suc k)) mod ?C) ?s1 =
           Inr (?s1\<lparr>blocks := (blocks ?s1)[dst :=
                  Some (take (Suc k) ?d' @ map Some (drop (Suc k) q) @ drop (length q) ?d')]\<rparr>)"
    by (rule Suc.hyps(1) [OF n Suc.prems(1) b1 b2 len' Suc.prems(5) Suc.prems(6)
          Suc.prems(7) Suc.prems(8) Suc.prems(9) kl'])
  have t1: "take (Suc k) ?d' = take k d @ [Some (q ! k)]"
    using kd by (simp add: take_Suc_conv_app_nth)
  have t2: "drop (length q) ?d' = drop (length q) d"
    using kl by simp
  have t3: "map Some (drop k q) = Some (q ! k) # map Some (drop (Suc k) q)"
    using kl by (simp add: Cons_nth_drop_Suc [symmetric])
  have lists: "take (Suc k) ?d' @ map Some (drop (Suc k) q) @ drop (length q) ?d'
        = take k d @ map Some (drop k q) @ drop (length q) d"
    by (simp add: t1 t2 t3)
  have one: "copy_loop dst t src (int k) ?idx s =
               copy_loop dst t src (int (Suc k)) ((f + int (Suc k)) mod ?C) ?s1"
    using kl Suc.prems(5,7) ld st nx
    by (subst copy_loop.simps) (simp add: add.commute)
  show ?case
    unfolding one IH lists by simp
qed

lemma Buffer_copy_result:
  assumes "holds s other q" and "objects s other = Some ob" and "this \<noteq> other"
  shows "Buffer_copy this other s =
           Inr (s\<lparr>blocks := blocks s @
                    [Some (map Some q @ replicate (nat (max_size ob) - length q) None)],
                  objects := (objects s)(this \<mapsto>
                    \<lparr>items = length (blocks s), max_size = max_size ob,
                     current_count = current_count ob,
                     front_idx = front_idx ob, rear_idx = rear_idx ob\<rparr>)\<rparr>)"
proof -
  from assms(1,2) obtain cells where
    bl: "block_at s (items ob) = Some cells" and
    C: "0 < max_size ob" and len: "int (length cells) = max_size ob" and
    cnt: "current_count ob = int (length q)" and le: "current_count ob \<le> max_size ob" and
    f0: "0 \<le> front_idx ob" and f1: "front_idx ob < max_size ob" and
    cs: "\<forall>i<length q. cells ! nat ((front_idx ob + int i) mod max_size ob) = Some (q ! i)"
    by (auto simp: holds_iff)
  let ?a = "length (blocks s)"
  let ?d = "replicate (nat (max_size ob)) (None :: buffer_item option)"
  let ?s1 = "s\<lparr>blocks := blocks s @ [Some ?d]\<rparr>"
  let ?t = "\<lparr>items = ?a, max_size = max_size ob, current_count = current_count ob,
             front_idx = front_idx ob, rear_idx = rear_idx ob\<rparr>"
  from bl have al: "items ob < ?a" by (rule block_at_Some_less)
  have na: "new_array (max_size ob) s = Inr (?a, ?s1)"
    using C by (simp add: new_array_def)
  have ne: "items ob \<noteq> ?a" using al by simp
  have b1: "block_at ?s1 (items ob) = Some cells"
    using bl al by (simp add: block_at_def nth_append)
  have b2: "block_at ?s1 ?a = Some ?d" by (simp add: block_at_def)
  have "copy_loop ?a ?t (items ob) (int 0) ((front_idx ob + int 0) mod max_size ?t) ?s1 =
          Inr (?s1\<lparr>blocks := (blocks ?s1)[?a :=
                 Some (take 0 ?d @ map Some (drop 0 q) @ drop (length q) ?d)]\<rparr>)"
    by (rule copy_loop_result [OF ne b1 b2]) (use C len cnt le cs in simp_all)
  with f0 f1 have cl: "copy_loop ?a ?t (items ob) 0 (front_idx ?t) ?s1 =
          Inr (s\<lparr>blocks := blocks s @
                 [Some (map Some q @ replicate (nat (max_size ob) - length q) None)]\<rparr>)"
    by simp
  show ?thesis
    using assms(2,3) na cl by (simp add: Buffer_copy_def)
qed

section \<open>Evaluation on concrete states\<close>

lemma replicate_numeral_Cons:
  "replicate (numeral k) x = x # replicate (pred_numeral k) x"
  by (simp add: numeral_eq_Suc)

lemmas eval_defs =
  replicate_numeral_Cons Buffer_ctor_def new_array_def empty_state_def
  insert_item_def remove_item_def is_full_def is_empty_def store_def load_def
  block_at_def c_rem_def Buffer_copy_def copy_loop.simps holds_def

section \<open>The text printed\<close>

lemma comma_separated_Cons:
  "comma_separated (x # ys) = x @ (if ys = [] then [] else '', '' @ comma_separated ys)"
  by (cases ys) simp_all

lemma print_loop_result:
  assumes "block_at s (items b) = Some cells" and "int (length cells) = max_size b"
    and "0 < max_size b" and "current_count b = int (length q)"
    and "\<forall>i<length q. cells ! nat ((f + int i) mod max_size b) = Some (q ! i)"
    and "k \<le> length q"
  shows "print_loop b (int k) ((f + int k) mod max_size b) out s =
           Inr (out @ comma_separated (map show_int (drop k q)))"
  using assms(6)
proof (induction "length q - k" arbitrary: k out)
  case 0
  then have "k = length q" by simp
  with assms(4) show ?case by (subst print_loop.simps) simp
next
  case (Suc n)
  let ?C = "max_size b"
  let ?idx = "(f + int k) mod ?C"
  from Suc.hyps(2) have kl: "k < length q" by simp
  from assms(3) have i0: "0 \<le> ?idx" and i1: "?idx < ?C" by simp_all
  from assms(5) kl have "cells ! nat ?idx = Some (q ! k)" by simp
  with assms(1,2) i0 i1 have ld: "load (items b) ?idx s = Inr (q ! k)"
    by (simp add: load_def)
  have nx: "c_rem (?idx + 1) ?C = (f + int (Suc k)) mod ?C"
  proof -
    from i0 assms(3) have "c_rem (?idx + 1) ?C = (?idx + 1) mod ?C" by (simp add: c_rem_mod)
    also have "\<dots> = (f + int k + 1) mod ?C" by (rule mod_add_left_eq)
    finally show ?thesis by (simp add: ac_simps)
  qed
  let ?sep = "if Suc k < length q then '', '' else []"
  from Suc.hyps(2) have n: "n = length q - Suc k" by simp
  from kl have le: "Suc k \<le> length q" by simp
  have IH: "print_loop b (int (Suc k)) ((f + int (Suc k)) mod ?C) (out @ show_int (q ! k) @ ?sep) s
              = Inr ((out @ show_int (q ! k) @ ?sep) @ comma_separated (map show_int (drop (Suc k) q)))"
    by (rule Suc.hyps(1) [OF n le])
  have one: "print_loop b (int k) ?idx out s =
        print_loop b (int (Suc k)) ((f + int (Suc k)) mod ?C) (out @ show_int (q ! k) @ ?sep) s"
    using kl assms(3,4) ld nx
    by (subst print_loop.simps) (auto simp: Let_def ac_simps)
  from kl have "drop k q = q ! k # drop (Suc k) q" by (simp add: Cons_nth_drop_Suc)
  then have "comma_separated (map show_int (drop k q)) =
        show_int (q ! k) @ ?sep @ comma_separated (map show_int (drop (Suc k) q))"
    by (simp add: comma_separated_Cons)
  with one IH show ?case by simp
qed

section \<open>The calls of main\<close>

lemma create_producers_events:
  "e \<in> set (create_producers i n) \<Longrightarrow> \<exists>r. e = Thread_create r"
proof (induction i n rule: create_producers.induct)
  case (1 i n)
  from "1.prems" show ?case
    by (subst (asm) create_producers.simps) (auto split: if_splits dest: "1.IH")
qed

lemma create_consumers_events:
  "e \<in> set (create_consumers j n) \<Longrightarrow> \<exists>r. e = Thread_create r"
proof (induction j n rule: create_consumers.induct)
  case (1 j n)
  from "1.prems" show ?case
    by (subst (asm) create_consumers.simps) (auto split: if_splits dest: "1.IH")
qed

lemma foldl_sem_step_creates:
  "\<forall>e\<in>set es. \<exists>r. e = Thread_create r \<Longrightarrow> foldl (sem_step x) v es = v"
  by (induction es arbitrary: v) auto

lemma split_left:
  assumes "xs @ ys = pre @ z # post" and "z \<notin> set xs"
  shows "\<exists>pre'. pre = xs @ pre' \<and> ys = pre' @ z # post"
  using assms
proof (induction xs arbitrary: pre)
  case Nil
  then show ?case by simp
next
  case (Cons x xs)
  then show ?case by (cases pre) auto
qed

lemma split_right:
  assumes "ys @ zs = pre @ z # post" and "z \<notin> set zs"
  shows "\<exists>post'. ys = pre @ z # post'"
  using assms
proof (induction pre arbitrary: ys)
  case Nil
  then show ?case by (cases ys) auto
next
  case (Cons p pre)
  then show ?case by (cases ys) auto
qed

lemma static_init_state:
  "static_init = Inr \<lparr>blocks = [Some (replicate 5 None)],
     objects = (\<lambda>_. None)(buffer_addr \<mapsto>
        \<lparr>items = 0, max_size = 5, current_count = 0, front_idx = 0, rear_idx = - 1\<rparr>)\<rparr>"
  by (simp add: static_init_def Buffer_ctor_def new_array_def empty_state_def)

section \<open>The properties of the specification\<close>

text \<open>
  C1. FIFO round trip. For a sequence of calls on a freshly constructed buffer of positive
  capacity that respects the blocking contract, every call returns, the items removed
  are, in order, the first items inserted, and they are all the items inserted exactly
  when the buffer is empty at the end; \<^verbatim>\<open>is_full()\<close> is false after every removal. In
  particular, on a buffer of capacity 5, inserting 1, 2, 3, 4, 5 fills the buffer, and five
  removals then return 1, 2, 3, 4, 5 in that order, with \<^verbatim>\<open>is_full()\<close> false after each of
  them and \<^verbatim>\<open>is_empty()\<close> true at the end.
\<close>

theorem fifo_round_trip:
  "(0 < C \<and> respects_contract C 0 ops \<longrightarrow>
      (\<exists>s0 log s' b'.
         Buffer_ctor this C s = Inr s0 \<and> run this ops s0 = Inr (log, s') \<and>
         map fst log = take (length log) (inserted ops) \<and>
         (length log = length (inserted ops) \<longrightarrow> map fst log = inserted ops) \<and>
         (\<forall>e\<in>set log. \<not> snd e) \<and>
         objects s' this = Some b' \<and>
         (is_empty b' \<longleftrightarrow> map fst log = inserted ops))) \<and>
   (\<exists>s0 s1 b1 log s2 b2.
      Buffer_ctor 0 5 empty_state = Inr s0 \<and>
      run 0 [Insert 1, Insert 2, Insert 3, Insert 4, Insert 5] s0 = Inr ([], s1) \<and>
      objects s1 0 = Some b1 \<and> is_full b1 \<and>
      run 0 [Remove, Remove, Remove, Remove, Remove] s1 = Inr (log, s2) \<and>
      log = [(1, False), (2, False), (3, False), (4, False), (5, False)] \<and>
      objects s2 0 = Some b2 \<and> is_empty b2)"
proof (intro conjI impI)
  assume a: "0 < C \<and> respects_contract C 0 ops"
  then have p: "0 < C" and c: "respects_contract C 0 ops" by simp_all
  from run_fresh [OF p c, of this s] obtain s0 log s' q' b' where
    ct: "Buffer_ctor this C s = Inr s0" and r: "run this ops s0 = Inr (log, s')" and
    h: "holds s' this q'" and i: "inserted ops = map fst log @ q'" and
    nf: "\<forall>e\<in>set log. \<not> snd e" and
    o: "objects s' this = Some b'"
    by blast
  from i have t: "map fst log = take (length log) (inserted ops)" by simp
  from h o have "current_count b' = int (length q')" by (auto simp: holds_iff)
  then have "is_empty b' \<longleftrightarrow> q' = []" by (simp add: is_empty_def)
  with i have e: "is_empty b' \<longleftrightarrow> map fst log = inserted ops" by auto
  from t have "length log = length (inserted ops) \<longrightarrow> map fst log = inserted ops" by simp
  with ct r t nf o e show "\<exists>s0 log s' b'.
         Buffer_ctor this C s = Inr s0 \<and> run this ops s0 = Inr (log, s') \<and>
         map fst log = take (length log) (inserted ops) \<and>
         (length log = length (inserted ops) \<longrightarrow> map fst log = inserted ops) \<and>
         (\<forall>e\<in>set log. \<not> snd e) \<and>
         objects s' this = Some b' \<and>
         (is_empty b' \<longleftrightarrow> map fst log = inserted ops)" by blast
next
  show "\<exists>s0 s1 b1 log s2 b2.
      Buffer_ctor 0 5 empty_state = Inr s0 \<and>
      run 0 [Insert 1, Insert 2, Insert 3, Insert 4, Insert 5] s0 = Inr ([], s1) \<and>
      objects s1 0 = Some b1 \<and> is_full b1 \<and>
      run 0 [Remove, Remove, Remove, Remove, Remove] s1 = Inr (log, s2) \<and>
      log = [(1, False), (2, False), (3, False), (4, False), (5, False)] \<and>
      objects s2 0 = Some b2 \<and> is_empty b2"
    by (simp add: Buffer_ctor_def new_array_def empty_state_def insert_item_def remove_item_def
        is_full_def is_empty_def store_def load_def block_at_def c_rem_def)
qed

theorem fifo_round_trip_witness:
  "(0::int) < 5 \<and>
   respects_contract 5 0
     [Insert 1, Insert 2, Insert 3, Insert 4, Insert 5,
      Remove, Remove, Remove, Remove, Remove] \<and>
   (\<exists>s0 log s' b'.
      Buffer_ctor 0 5 empty_state = Inr s0 \<and>
      run 0 [Insert 1, Insert 2, Insert 3, Insert 4, Insert 5,
             Remove, Remove, Remove, Remove, Remove] s0 = Inr (log, s') \<and>
      map fst log = [1, 2, 3, 4, 5] \<and> map snd log = [False, False, False, False, False] \<and>
      objects s' 0 = Some b' \<and> is_empty b')"
proof -
  let ?ops = "[Insert 1, Insert 2, Insert 3, Insert 4, Insert 5,
               Remove, Remove, Remove, Remove, Remove]"
  have p: "(0::int) < 5" by simp
  have c: "respects_contract 5 0 ?ops" by simp
  note general = fifo_round_trip [of 5 ?ops 0 empty_state, THEN conjunct1, THEN mp,
      OF conjI [OF p c]]
  then obtain s0 log s' b' where
    ct: "Buffer_ctor 0 5 empty_state = Inr s0" and
    r: "run 0 ?ops s0 = Inr (log, s')" and
    all: "length log = length (inserted ?ops) \<longrightarrow> map fst log = inserted ?ops" and
    nf: "\<forall>e\<in>set log. \<not> snd e" and
    o: "objects s' 0 = Some b'" and
    e: "is_empty b' \<longleftrightarrow> map fst log = inserted ?ops"
    by blast
  from ct have "s0 = \<lparr>blocks = [Some [None, None, None, None, None]],
      objects = (\<lambda>_. None)(0 \<mapsto> \<lparr>items = 0, max_size = 5, current_count = 0,
                                  front_idx = 0, rear_idx = - 1\<rparr>)\<rparr>"
    by (simp add: eval_defs)
  with r have len: "length log = 5"
    by (auto simp: eval_defs)
  with all have m: "map fst log = inserted ?ops" by simp
  with e have em: "is_empty b'" by simp
  from nf have "map snd log = replicate (length log) False"
    by (intro nth_equalityI) simp_all
  with len have "map snd log = [False, False, False, False, False]"
    by (simp add: eval_defs)
  with p c ct r m em o show ?thesis by auto
qed

text \<open>
  C2. Representation invariant. Starting from a freshly constructed buffer of positive
  capacity \<open>C\<close>, every sequence of \<^verbatim>\<open>insert_item\<close> and \<^verbatim>\<open>remove_item\<close> calls that respects the
  blocking contract returns, and afterwards the capacity is still \<open>C\<close>, the count lies
  between 0 and \<open>C\<close> and is the number of items inserted and not yet removed, the rear index
  is \<open>(front_idx + count - 1) mod C\<close> whenever the count is positive, and the items inserted
  and not yet removed are, oldest first, in the cells \<open>front_idx, front_idx + 1, ...,
  front_idx + count - 1\<close> taken modulo \<open>C\<close>.
\<close>

theorem invariant_preserved:
  assumes "0 < C" and "respects_contract C 0 ops"
  shows "\<exists>s0 log s' b' cells.
           Buffer_ctor this C s = Inr s0 \<and> run this ops s0 = Inr (log, s') \<and>
           objects s' this = Some b' \<and> max_size b' = C \<and>
           0 \<le> current_count b' \<and> current_count b' \<le> C \<and>
           (0 < current_count b' \<longrightarrow>
              rear_idx b' = (front_idx b' + current_count b' - 1) mod C) \<and>
           current_count b' = int (length (inserted ops)) - int (length log) \<and>
           block_at s' (items b') = Some cells \<and>
           (\<forall>i < nat (current_count b').
              cells ! nat ((front_idx b' + int i) mod C)
                = Some (inserted ops ! (length log + i))) \<and>
           holds s' this (drop (length log) (inserted ops))"
proof -
  from run_fresh [OF assms, of this s] obtain s0 log s' q' b' where
    c: "Buffer_ctor this C s = Inr s0" and r: "run this ops s0 = Inr (log, s')" and
    h: "holds s' this q'" and i: "inserted ops = map fst log @ q'" and
    o: "objects s' this = Some b'" and m: "max_size b' = C"
    by blast
  from i have q': "q' = drop (length log) (inserted ops)" by simp
  from i have len: "length (inserted ops) = length log + length q'"
    by (metis length_append length_map)
  from h o obtain cells where
    bl: "block_at s' (items b') = Some cells" and
    cnt: "current_count b' = int (length q')" and le: "current_count b' \<le> max_size b'" and
    rr: "if q' = [] then (rear_idx b' + 1) mod max_size b' = front_idx b'
         else rear_idx b' = (front_idx b' + current_count b' - 1) mod max_size b'" and
    cs: "\<forall>i<length q'. cells ! nat ((front_idx b' + int i) mod max_size b') = Some (q' ! i)"
    by (auto simp: holds_iff)
  have "\<forall>i < nat (current_count b').
           cells ! nat ((front_idx b' + int i) mod C) = Some (inserted ops ! (length log + i))"
  proof (intro allI impI)
    fix k assume "k < nat (current_count b')"
    with cnt have k: "k < length q'" by simp
    with cs m have "cells ! nat ((front_idx b' + int k) mod C) = Some (q' ! k)" by simp
    moreover from i have "inserted ops ! (length log + k) = q' ! k"
      by (metis length_map nth_append_length_plus)
    ultimately show "cells ! nat ((front_idx b' + int k) mod C)
                       = Some (inserted ops ! (length log + k))" by simp
  qed
  moreover from rr cnt m
  have "0 < current_count b' \<longrightarrow> rear_idx b' = (front_idx b' + current_count b' - 1) mod C"
    by auto
  moreover from cnt len have "current_count b' = int (length (inserted ops)) - int (length log)"
    by simp
  ultimately show ?thesis using c r o m cnt le bl h q' by auto
qed

theorem invariant_preserved_witness:
  "(0::int) < 3 \<and>
   respects_contract 3 0 [Insert 1, Insert 2, Insert 3, Remove, Remove, Insert 4] \<and>
   (\<exists>s0 s'.
      Buffer_ctor 0 3 empty_state = Inr s0 \<and>
      run 0 [Insert 1, Insert 2, Insert 3, Remove, Remove, Insert 4] s0
        = Inr ([(1, False), (2, False)], s') \<and>
      objects s' 0 = Some \<lparr>items = 0, max_size = 3, current_count = 2,
                            front_idx = 2, rear_idx = 0\<rparr> \<and>
      block_at s' 0 = Some [Some 4, Some 2, Some 3] \<and>
      holds s' 0 [3, 4])"
proof -
  let ?ops = "[Insert 1, Insert 2, Insert 3, Remove, Remove, Insert 4]"
  have p: "(0::int) < 3" by simp
  have c: "respects_contract 3 0 ?ops" by simp
  from invariant_preserved [OF p c, of 0 empty_state] obtain s0 log s' where
    ct: "Buffer_ctor 0 3 empty_state = Inr s0" and
    r: "run 0 ?ops s0 = Inr (log, s')" and
    h: "holds s' 0 (drop (length log) (inserted ?ops))"
    by blast
  from ct have "s0 = \<lparr>blocks = [Some [None, None, None]],
      objects = (\<lambda>_. None)(0 \<mapsto> \<lparr>items = 0, max_size = 3, current_count = 0,
                                  front_idx = 0, rear_idx = - 1\<rparr>)\<rparr>"
    by (simp add: eval_defs)
  with r have l: "log = [(1, False), (2, False)]" and
    o: "objects s' 0 = Some \<lparr>items = 0, max_size = 3, current_count = 2,
                              front_idx = 2, rear_idx = 0\<rparr>" and
    b: "block_at s' 0 = Some [Some 4, Some 2, Some 3]"
    by (auto simp: eval_defs)
  from h l have "holds s' 0 [3, 4]" by simp
  with p c ct r l o b show ?thesis by auto
qed

text \<open>
  C3. Postcondition of \<^verbatim>\<open>insert_item\<close>. On a buffer that satisfies the representation
  invariant and is not full, \<^verbatim>\<open>insert_item(item)\<close> returns true, moves the rear index to
  \<open>(rear_idx + 1) mod max_size\<close>, writes the item to that cell and to no other, adds one to the
  count, leaves the front index, the capacity and the array pointer as they were, and the
  live items are the previous ones, in their order, followed by the item.
\<close>

theorem insert_item_postcondition:
  assumes "holds s this q" and "objects s this = Some b"
    and "current_count b < max_size b"
  shows "\<exists>s' b' cells.
           insert_item this item s = Inr (True, s') \<and>
           objects s' this = Some b' \<and>
           block_at s (items b) = Some cells \<and>
           rear_idx b' = (rear_idx b + 1) mod max_size b \<and>
           block_at s' (items b) = Some (cells[nat (rear_idx b') := Some item]) \<and>
           current_count b' = current_count b + 1 \<and>
           front_idx b' = front_idx b \<and> max_size b' = max_size b \<and> items b' = items b \<and>
           holds s' this (q @ [item])"
proof -
  from assms(3) have nf: "\<not> is_full b" by (simp add: is_full_def)
  from insert_item_step [OF assms(1,2) nf, of item] obtain cells where
    bl: "block_at s (items b) = Some cells" and
    ins: "insert_item this item s =
             Inr (True,
                  s\<lparr>blocks := (blocks s)[items b :=
                         Some (cells[nat ((rear_idx b + 1) mod max_size b) := Some item])],
                    objects := (objects s)(this \<mapsto>
                         b\<lparr>rear_idx := (rear_idx b + 1) mod max_size b,
                           current_count := current_count b + 1\<rparr>)\<rparr>)" and
    h: "holds (s\<lparr>blocks := (blocks s)[items b :=
                         Some (cells[nat ((rear_idx b + 1) mod max_size b) := Some item])],
                    objects := (objects s)(this \<mapsto>
                         b\<lparr>rear_idx := (rear_idx b + 1) mod max_size b,
                           current_count := current_count b + 1\<rparr>)\<rparr>) this (q @ [item])"
    by blast
  from bl have "items b < length (blocks s)" by (rule block_at_Some_less)
  then have "block_at (s\<lparr>blocks := (blocks s)[items b :=
                         Some (cells[nat ((rear_idx b + 1) mod max_size b) := Some item])],
                    objects := (objects s)(this \<mapsto>
                         b\<lparr>rear_idx := (rear_idx b + 1) mod max_size b,
                           current_count := current_count b + 1\<rparr>)\<rparr>) (items b)
       = Some (cells[nat ((rear_idx b + 1) mod max_size b) := Some item])"
    by (simp add: block_at_def)
  with bl ins h show ?thesis by simp
qed

theorem insert_item_postcondition_witness:
  "holds \<lparr>blocks = [Some [Some 1, Some 2, Some 7]],
          objects = (\<lambda>_. None)(4 \<mapsto> \<lparr>items = 0, max_size = 3, current_count = 1,
                                       front_idx = 2, rear_idx = 2\<rparr>)\<rparr> 4 [7] \<and>
   (\<exists>s'. insert_item 4 9 \<lparr>blocks = [Some [Some 1, Some 2, Some 7]],
          objects = (\<lambda>_. None)(4 \<mapsto> \<lparr>items = 0, max_size = 3, current_count = 1,
                                       front_idx = 2, rear_idx = 2\<rparr>)\<rparr> = Inr (True, s') \<and>
         block_at s' 0 = Some [Some 9, Some 2, Some 7] \<and>
         holds s' 4 [7, 9])"
proof -
  let ?b = "\<lparr>items = 0, max_size = 3, current_count = 1, front_idx = 2, rear_idx = 2\<rparr>"
  let ?s = "\<lparr>blocks = [Some [Some 1, Some 2, Some 7]], objects = (\<lambda>_. None)(4 \<mapsto> ?b)\<rparr>"
  have h: "holds ?s 4 [7]" by (simp add: holds_def block_at_def)
  have o: "objects ?s 4 = Some ?b" by simp
  have c: "current_count ?b < max_size ?b" by simp
  have bl: "block_at ?s (items ?b) = Some [Some 1, Some 2, Some 7]" by (simp add: block_at_def)
  from insert_item_postcondition [OF h o c, of 9] bl h show ?thesis
    by auto
qed

text \<open>
  C4. Postcondition of \<^verbatim>\<open>remove_item\<close>. On a buffer that satisfies the representation
  invariant and is not empty, \<^verbatim>\<open>remove_item\<close> returns true and stores the item in the cell
  at the front index, which is the oldest live item; it moves the front index to
  \<open>(front_idx + 1) mod max_size\<close>, subtracts one from the count, changes no cell, and the
  live items are the remaining ones in their order.
\<close>

theorem remove_item_postcondition:
  assumes "holds s this q" and "objects s this = Some b" and "0 < current_count b"
  shows "\<exists>s' b'.
           q \<noteq> [] \<and>
           load (items b) (front_idx b) s = Inr (hd q) \<and>
           remove_item this s = Inr ((True, hd q), s') \<and>
           objects s' this = Some b' \<and>
           front_idx b' = (front_idx b + 1) mod max_size b \<and>
           current_count b' = current_count b - 1 \<and>
           rear_idx b' = rear_idx b \<and> max_size b' = max_size b \<and> items b' = items b \<and>
           blocks s' = blocks s \<and>
           holds s' this (tl q)"
proof -
  from assms(3) have ne: "\<not> is_empty b" by (simp add: is_empty_def)
  from remove_item_step [OF assms(1,2) ne] show ?thesis by simp
qed

theorem remove_item_postcondition_witness:
  "holds \<lparr>blocks = [Some [Some 9, Some 2, Some 7]],
          objects = (\<lambda>_. None)(4 \<mapsto> \<lparr>items = 0, max_size = 3, current_count = 2,
                                       front_idx = 2, rear_idx = 0\<rparr>)\<rparr> 4 [7, 9] \<and>
   (\<exists>s' b'. remove_item 4 \<lparr>blocks = [Some [Some 9, Some 2, Some 7]],
          objects = (\<lambda>_. None)(4 \<mapsto> \<lparr>items = 0, max_size = 3, current_count = 2,
                                       front_idx = 2, rear_idx = 0\<rparr>)\<rparr> = Inr ((True, 7), s') \<and>
         objects s' 4 = Some b' \<and> front_idx b' = 0 \<and> current_count b' = 1 \<and>
         holds s' 4 [9])"
proof -
  let ?b = "\<lparr>items = 0, max_size = 3, current_count = 2, front_idx = 2, rear_idx = 0\<rparr>"
  let ?s = "\<lparr>blocks = [Some [Some 9, Some 2, Some 7]], objects = (\<lambda>_. None)(4 \<mapsto> ?b)\<rparr>"
  have h: "holds ?s 4 [7, 9]" by (simp add: holds_def block_at_def)
  have o: "objects ?s 4 = Some ?b" by simp
  have c: "0 < current_count ?b" by simp
  from remove_item_postcondition [OF h o c] h show ?thesis
    by auto
qed

text \<open>
  C5. Copy semantics, at a buffer whose front index is not 0. A buffer of capacity 2 receives
  1 and 2, gives 1 back and receives 3: it holds 2, 3 with front index 1 and rear index 0.
  Its copy has the two items in the cells 0 and 1 of a new array, in their order, and the
  front index 1 and the rear index 0 of the source: the copy does not hold 2, 3 but 3, 2,
  and two removals from the copy return 3 then 2, where the source returns 2 then 3. A
  third buffer to which the source is then assigned is left in the same state.
\<close>

theorem copy_keeps_source_indices:
  "\<exists>s0 s1 s2 sa sb s3 s4 sc.
     Buffer_ctor 0 2 empty_state = Inr s0 \<and>
     run 0 [Insert 1, Insert 2, Remove, Insert 3] s0 = Inr ([(1, False)], s1) \<and>
     holds s1 0 [2, 3] \<and>
     objects s1 0 = Some \<lparr>items = 0, max_size = 2, current_count = 2,
                           front_idx = 1, rear_idx = 0\<rparr> \<and>
     block_at s1 0 = Some [Some 3, Some 2] \<and>
     Buffer_copy 1 0 s1 = Inr s2 \<and>
     objects s2 1 = Some \<lparr>items = 1, max_size = 2, current_count = 2,
                           front_idx = 1, rear_idx = 0\<rparr> \<and>
     block_at s2 1 = Some [Some 2, Some 3] \<and>
     \<not> holds s2 1 [2, 3] \<and> holds s2 1 [3, 2] \<and>
     run 0 [Remove, Remove] s2 = Inr ([(2, False), (3, False)], sa) \<and>
     run 1 [Remove, Remove] s2 = Inr ([(3, False), (2, False)], sb) \<and>
     Buffer_ctor 2 5 s2 = Inr s3 \<and>
     Buffer_assign 2 0 s3 = Inr (2, s4) \<and>
     objects s4 2 = Some \<lparr>items = 3, max_size = 2, current_count = 2,
                           front_idx = 1, rear_idx = 0\<rparr> \<and>
     block_at s4 3 = Some [Some 2, Some 3] \<and>
     \<not> holds s4 2 [2, 3] \<and> holds s4 2 [3, 2] \<and>
     run 2 [Remove, Remove] s4 = Inr ([(3, False), (2, False)], sc)"
  by (simp add: eval_defs Buffer_assign_def delete_array_def)

text \<open>
  C6. Construction with a capacity that is not positive. The constructor does not check
  its argument. With a negative size the construction fails, because the allocation of the
  array throws \<^verbatim>\<open>std::bad_array_new_length\<close>; with size 0 the construction succeeds, and the
  buffer has capacity 0 and is both empty and full, so that \<^verbatim>\<open>insert_item\<close> and \<^verbatim>\<open>remove_item\<close>
  both wait. The first theorem is the construction with size 0 returning normally.
\<close>

theorem ctor_zero_capacity_accepted:
  "\<not> isl (Buffer_ctor 0 0 empty_state)"
  by (simp add: eval_defs)

text \<open>
  C6, as the code has it: a negative size fails at the allocation, size 0 gives a buffer of
  capacity 0 on which every insertion and every removal waits.
\<close>

theorem ctor_nonpositive_capacity:
  "(sz < 0 \<longrightarrow> Buffer_ctor this sz s = Inl Bad_array_new_length) \<and>
   (sz = 0 \<longrightarrow>
      (\<exists>s' b. Buffer_ctor this sz s = Inr s' \<and> objects s' this = Some b \<and>
         get_size b = 0 \<and> is_empty b \<and> is_full b \<and>
         insert_item this item s' = Inl Waits_empty_cond \<and>
         remove_item this s' = Inl Waits_full_cond))"
  by (simp add: Buffer_ctor_def new_array_def get_size_def is_empty_def is_full_def
      insert_item_def remove_item_def)

theorem ctor_nonpositive_capacity_witness:
  "(- 1 :: int) < 0 \<and> Buffer_ctor 0 (- 1) empty_state = Inl Bad_array_new_length \<and>
   (\<exists>s' b. Buffer_ctor 0 0 empty_state = Inr s' \<and> objects s' 0 = Some b \<and>
         get_size b = 0 \<and> is_empty b \<and> is_full b \<and>
         insert_item 0 7 s' = Inl Waits_empty_cond \<and>
         remove_item 0 s' = Inl Waits_full_cond)"
  using ctor_nonpositive_capacity [of "- 1" 0 empty_state 7]
        ctor_nonpositive_capacity [of 0 0 empty_state 7]
  by simp

text \<open>
  C7. Copy independence. Copying a buffer that satisfies the representation invariant
  into another object succeeds and leaves the fields, the array and the live items of the
  source as they were, and so does every sequence of \<^verbatim>\<open>insert_item\<close> and \<^verbatim>\<open>remove_item\<close> calls
  on the copy that returns. The instance below is a buffer of capacity 5 that holds 10, 20:
  after copying it and inserting 30 into the copy, the source still has count 2 and holds
  10, 20.
\<close>

theorem copy_independence:
  assumes "holds s other q" and "objects s other = Some ob" and "this \<noteq> other"
  shows "\<exists>s1. Buffer_copy this other s = Inr s1 \<and>
           objects s1 other = Some ob \<and> block_at s1 (items ob) = block_at s (items ob) \<and>
           holds s1 other q \<and>
           (\<forall>ops log s2. run this ops s1 = Inr (log, s2) \<longrightarrow>
              objects s2 other = Some ob \<and>
              block_at s2 (items ob) = block_at s (items ob) \<and>
              holds s2 other q)"
proof -
  let ?s1 = "s\<lparr>blocks := blocks s @
                    [Some (map Some q @ replicate (nat (max_size ob) - length q) None)],
                  objects := (objects s)(this \<mapsto>
                    \<lparr>items = length (blocks s), max_size = max_size ob,
                     current_count = current_count ob,
                     front_idx = front_idx ob, rear_idx = rear_idx ob\<rparr>)\<rparr>"
  have cp: "Buffer_copy this other s = Inr ?s1"
    by (rule Buffer_copy_result [OF assms])
  from assms(1,2) obtain cells where bl: "block_at s (items ob) = Some cells"
    by (auto simp: holds_iff)
  then have al: "items ob < length (blocks s)" by (rule block_at_Some_less)
  have o1: "objects ?s1 other = Some ob" using assms(2,3) by simp
  have b1: "block_at ?s1 (items ob) = block_at s (items ob)"
    using al by (simp add: block_at_def nth_append)
  have "holds ?s1 other q = holds s other q"
  proof (rule holds_cong)
    show "objects ?s1 other = objects s other" using o1 assms(2) by simp
    show "block_at ?s1 (items b) = block_at s (items b)" if "objects s other = Some b" for b
      using that assms(2) b1 by simp
  qed
  with assms(1) have h1: "holds ?s1 other q" by simp
  have t1: "objects ?s1 this = Some \<lparr>items = length (blocks s), max_size = max_size ob,
                     current_count = current_count ob,
                     front_idx = front_idx ob, rear_idx = rear_idx ob\<rparr>" by simp
  have fr: "objects s2 other = Some ob \<and> block_at s2 (items ob) = block_at s (items ob) \<and>
            holds s2 other q" if r: "run this ops ?s1 = Inr (log, s2)" for ops log s2
  proof -
    from run_frame [OF r t1] assms(3) al
    have o2: "objects s2 other = objects ?s1 other"
      and b2: "block_at s2 (items ob) = block_at ?s1 (items ob)" by auto
    have "holds s2 other q = holds ?s1 other q"
    proof (rule holds_cong)
      show "objects s2 other = objects ?s1 other" by (rule o2)
      show "block_at s2 (items b) = block_at ?s1 (items b)"
        if "objects ?s1 other = Some b" for b
        using that o1 b2 by simp
    qed
    with h1 o1 o2 b1 b2 show ?thesis by simp
  qed
  from cp o1 b1 h1 fr show ?thesis by blast
qed

theorem copy_independence_witness:
  "\<exists>s0 s s1 s2 ob.
     Buffer_ctor 0 5 empty_state = Inr s0 \<and> run 0 [Insert 10, Insert 20] s0 = Inr ([], s) \<and>
     holds s 0 [10, 20] \<and> objects s 0 = Some ob \<and> get_count ob = 2 \<and>
     Buffer_copy 1 0 s = Inr s1 \<and> run 1 [Insert 30] s1 = Inr ([], s2) \<and>
     objects s2 0 = Some ob \<and> block_at s2 (items ob) = block_at s (items ob) \<and>
     holds s2 0 [10, 20] \<and> holds s2 1 [10, 20, 30]"
proof -
  let ?ob = "\<lparr>items = 0, max_size = 5, current_count = 2, front_idx = 0, rear_idx = 1\<rparr>"
  let ?init = "\<lparr>blocks = [Some [None, None, None, None, None]],
              objects = (\<lambda>_. None)(0 \<mapsto> \<lparr>items = 0, max_size = 5, current_count = 0,
                                          front_idx = 0, rear_idx = - 1\<rparr>)\<rparr>"
  let ?s = "\<lparr>blocks = [Some [Some 10, Some 20, None, None, None]],
             objects = (\<lambda>_. None)(0 \<mapsto> ?ob)\<rparr>"
  have c: "Buffer_ctor 0 5 empty_state = Inr ?init"
    by (simp add: eval_defs)
  have r: "run 0 [Insert 10, Insert 20] ?init = Inr ([], ?s)"
    by (simp add: eval_defs)
  have h: "holds ?s 0 [10, 20]" by (simp add: eval_defs)
  have o: "objects ?s 0 = Some ?ob" by simp
  have ne: "(1::nat) \<noteq> 0" by simp
  from copy_independence [OF h o ne] obtain s1 where
    cp: "Buffer_copy 1 0 ?s = Inr s1" and
    fr: "\<forall>ops log s2. run 1 ops s1 = Inr (log, s2) \<longrightarrow>
              objects s2 0 = Some ?ob \<and>
              block_at s2 (items ?ob) = block_at ?s (items ?ob) \<and>
              holds s2 0 [10, 20]"
    by blast
  have "Buffer_copy 1 0 ?s = Inr \<lparr>blocks = [Some [Some 10, Some 20, None, None, None],
                                          Some [Some 10, Some 20, None, None, None]],
             objects = (\<lambda>_. None)(0 \<mapsto> ?ob, 1 \<mapsto> ?ob\<lparr>items := 1\<rparr>)\<rparr>"
    by (simp add: eval_defs)
  with cp have s1: "s1 = \<lparr>blocks = [Some [Some 10, Some 20, None, None, None],
                                          Some [Some 10, Some 20, None, None, None]],
             objects = (\<lambda>_. None)(0 \<mapsto> ?ob, 1 \<mapsto> ?ob\<lparr>items := 1\<rparr>)\<rparr>" by simp
  let ?fin = "\<lparr>blocks = [Some [Some 10, Some 20, None, None, None],
                         Some [Some 10, Some 20, Some 30, None, None]],
             objects = (\<lambda>_. None)(0 \<mapsto> ?ob,
                 1 \<mapsto> \<lparr>items = 1, max_size = 5, current_count = 3, front_idx = 0,
                        rear_idx = 2\<rparr>)\<rparr>"
  have r2: "run 1 [Insert 30] s1 = Inr ([], ?fin)"
    unfolding s1 by (simp add: eval_defs)
  have h2: "holds ?fin 1 [10, 20, 30]" by (simp add: eval_defs)
  from fr r2 have "objects ?fin 0 = Some ?ob \<and>
              block_at ?fin (items ?ob) = block_at ?s (items ?ob) \<and>
              holds ?fin 0 [10, 20]" by blast
  with c r h o cp r2 h2 show ?thesis
    by (intro exI [of _ ?init] exI [of _ ?s] exI [of _ s1] exI [of _ ?fin] exI [of _ ?ob])
       (simp add: get_count_def)
qed

text \<open>
  C8. Diagnostic rendering. For a buffer that satisfies the representation invariant,
  \<^verbatim>\<open>print_buffer\<close> writes \<^verbatim>\<open>Buffer: [\<close>, then the live items oldest first, in decimal and
  separated by a comma and a space, or the marker \<^verbatim>\<open>-- Buffer is empty --\<close> when there is no
  item, then \<^verbatim>\<open>]\<close> and a newline.
\<close>

theorem print_buffer_renders_fifo:
  assumes "holds s this q"
  shows "print_buffer this s =
           Inr (''Buffer: ['' @
                (if q = [] then ''-- Buffer is empty --''
                 else comma_separated (map show_int q)) @
                [CHR '']'', CHR 0x0A])"
proof -
  from assms obtain b cells where
    ob: "objects s this = Some b" and
    bl: "block_at s (items b) = Some cells" and
    C: "0 < max_size b" and len: "int (length cells) = max_size b" and
    cnt: "current_count b = int (length q)" and
    f0: "0 \<le> front_idx b" and f1: "front_idx b < max_size b" and
    cs: "\<forall>i<length q. cells ! nat ((front_idx b + int i) mod max_size b) = Some (q ! i)"
    by (auto simp: holds_iff)
  show ?thesis
  proof (cases "q = []")
    case True
    with ob cnt show ?thesis by (simp add: print_buffer_def is_empty_def)
  next
    case False
    have "print_loop b (int 0) ((front_idx b + int 0) mod max_size b) ''Buffer: ['' s =
            Inr (''Buffer: ['' @ comma_separated (map show_int (drop 0 q)))"
      by (rule print_loop_result [OF bl len C cnt cs]) simp
    with f0 f1 have "print_loop b 0 (front_idx b) ''Buffer: ['' s =
            Inr (''Buffer: ['' @ comma_separated (map show_int q))" by simp
    with False ob cnt show ?thesis by (simp add: print_buffer_def is_empty_def)
  qed
qed

theorem print_buffer_renders_fifo_witness:
  "holds \<lparr>blocks = [Some [Some (- 30), Some 2, Some 7]],
          objects = (\<lambda>_. None)(4 \<mapsto> \<lparr>items = 0, max_size = 3, current_count = 2,
                                       front_idx = 2, rear_idx = 0\<rparr>)\<rparr> 4 [7, - 30] \<and>
   print_buffer 4 \<lparr>blocks = [Some [Some (- 30), Some 2, Some 7]],
          objects = (\<lambda>_. None)(4 \<mapsto> \<lparr>items = 0, max_size = 3, current_count = 2,
                                       front_idx = 2, rear_idx = 0\<rparr>)\<rparr>
     = Inr (''Buffer: [7, -30]'' @ [CHR 0x0A]) \<and>
   holds \<lparr>blocks = [Some [Some (- 30), Some 2, Some 7]],
          objects = (\<lambda>_. None)(4 \<mapsto> \<lparr>items = 0, max_size = 3, current_count = 0,
                                       front_idx = 1, rear_idx = 0\<rparr>)\<rparr> 4 [] \<and>
   print_buffer 4 \<lparr>blocks = [Some [Some (- 30), Some 2, Some 7]],
          objects = (\<lambda>_. None)(4 \<mapsto> \<lparr>items = 0, max_size = 3, current_count = 0,
                                       front_idx = 1, rear_idx = 0\<rparr>)\<rparr>
     = Inr (''Buffer: [-- Buffer is empty --]'' @ [CHR 0x0A])"
proof -
  let ?full = "\<lparr>blocks = [Some [Some (- 30), Some 2, Some 7]],
          objects = (\<lambda>_. None)(4 \<mapsto> \<lparr>items = 0, max_size = 3, current_count = 2,
                                       front_idx = 2, rear_idx = 0\<rparr>)\<rparr>"
  let ?none = "\<lparr>blocks = [Some [Some (- 30), Some 2, Some 7]],
          objects = (\<lambda>_. None)(4 \<mapsto> \<lparr>items = 0, max_size = 3, current_count = 0,
                                       front_idx = 1, rear_idx = 0\<rparr>)\<rparr>"
  have h1: "holds ?full 4 [7, - 30]" by (simp add: holds_def block_at_def)
  have h2: "holds ?none 4 []" by (simp add: holds_def block_at_def)
  from print_buffer_renders_fifo [OF h1] print_buffer_renders_fifo [OF h2] h1 h2
  show ?thesis by (simp add: show_int_def)
qed

text \<open>
  C9. Initialisation of the permits. In a run of \<^verbatim>\<open>main\<close> with three arguments, whenever a
  producer or consumer thread is created, the calls before it have initialised the
  semaphore of the empty slots to the capacity of the global buffer, which is
  \<^verbatim>\<open>get_size()\<close> = 5, and the semaphore of the full slots to 0.
\<close>

theorem semaphores_initialised_before_threads:
  assumes "static_init = Inr s"
    and "main 4 sleep_time num_producers num_consumers s = pre @ Thread_create r # post"
  shows "\<exists>b. objects s buffer_addr = Some b \<and> get_size b = 5 \<and>
           permits pre Empty_slots = Some (nat (get_size b)) \<and>
           permits pre Full_slots = Some 0"
proof -
  let ?b = "\<lparr>items = 0, max_size = 5, current_count = 0, front_idx = 0, rear_idx = - 1\<rparr>"
  let ?I = "[Sem_init Empty_slots 5, Sem_init Full_slots 0, Mutex_init]"
  let ?T = "create_producers 0 num_producers @ create_consumers 0 num_consumers"
  let ?F = "[Sleep sleep_time, Print_shutdown,
             Sem_destroy Empty_slots, Sem_destroy Full_slots, Mutex_destroy, Return 0]"
  have "Inr s = static_init" using assms(1) by simp
  also note static_init_state
  finally have ob: "objects s buffer_addr = Some ?b" by simp
  have gs: "get_size ?b = 5" by (simp add: get_size_def)
  have mn: "main 4 sleep_time num_producers num_consumers s =
              ?I @ (if num_producers < 0 \<or> num_consumers < 0 then [Undefined] else ?T @ ?F)"
    using ob by (simp add: main_def get_size_def to_unsigned_def)
  let ?R = "if num_producers < 0 \<or> num_consumers < 0 then [Undefined] else ?T @ ?F"
  have ni: "Thread_create r \<notin> set ?I" by simp
  from assms(2) mn have eq: "?I @ ?R = pre @ Thread_create r # post" by simp
  from split_left [OF eq ni] obtain pre' where
    pre: "pre = ?I @ pre'" and rest: "?R = pre' @ Thread_create r # post"
    by blast
  have ok: "\<not> (num_producers < 0 \<or> num_consumers < 0)"
  proof
    assume "num_producers < 0 \<or> num_consumers < 0"
    with rest have "[Undefined] = pre' @ Thread_create r # post" by simp
    then show False by (cases pre') simp_all
  qed
  with rest have eq': "?T @ ?F = pre' @ Thread_create r # post" by simp
  have nf: "Thread_create r \<notin> set ?F" by simp
  from split_right [OF eq' nf] obtain post' where "?T = pre' @ Thread_create r # post'"
    by blast
  then have "set pre' \<subseteq> set ?T" by auto
  then have "\<forall>e\<in>set pre'. \<exists>r. e = Thread_create r"
    using create_producers_events create_consumers_events by fastforce
  then have "\<And>x v. foldl (sem_step x) v pre' = v"
    by (rule foldl_sem_step_creates)
  with pre have "permits pre Empty_slots = Some 5" and "permits pre Full_slots = Some 0"
    by (simp_all add: permits_def)
  with ob gs show ?thesis by simp
qed

theorem semaphores_initialised_before_threads_witness:
  "\<exists>s b. static_init = Inr s \<and>
     main 4 10 2 1 s =
       [Sem_init Empty_slots 5, Sem_init Full_slots 0, Mutex_init, Thread_create (Producer 1)] @
       Thread_create (Producer 2) #
       [Thread_create Consumer, Sleep 10, Print_shutdown,
        Sem_destroy Empty_slots, Sem_destroy Full_slots, Mutex_destroy, Return 0] \<and>
     objects s buffer_addr = Some b \<and> get_size b = 5 \<and>
     permits [Sem_init Empty_slots 5, Sem_init Full_slots 0, Mutex_init,
              Thread_create (Producer 1)] Empty_slots = Some (nat (get_size b)) \<and>
     permits [Sem_init Empty_slots 5, Sem_init Full_slots 0, Mutex_init,
              Thread_create (Producer 1)] Full_slots = Some 0"
proof -
  let ?st = "\<lparr>blocks = [Some (replicate 5 None)],
     objects = (\<lambda>_. None)(buffer_addr \<mapsto>
        \<lparr>items = 0, max_size = 5, current_count = 0, front_idx = 0, rear_idx = - 1\<rparr>)\<rparr>"
  have i: "static_init = Inr ?st" by (rule static_init_state)
  have m: "main 4 10 2 1 ?st =
       [Sem_init Empty_slots 5, Sem_init Full_slots 0, Mutex_init, Thread_create (Producer 1)] @
       Thread_create (Producer 2) #
       [Thread_create Consumer, Sleep 10, Print_shutdown,
        Sem_destroy Empty_slots, Sem_destroy Full_slots, Mutex_destroy, Return 0]"
    by (simp add: main_def get_size_def to_unsigned_def create_producers.simps
        create_consumers.simps)
  from semaphores_initialised_before_threads [OF i m] i m show ?thesis by blast
qed

text \<open>
  C10. Self-assignment. Assigning a buffer to itself returns at once: the store, and with
  it the capacity, the count, the indices and the items of the buffer, is what it was.
\<close>

theorem self_assignment_identity:
  "Buffer_assign this this s = Inr (this, s)"
  by (simp add: Buffer_assign_def)

end
